theory Spec2Isabelle
  imports Main
begin

section \<open>Errors\<close>

text \<open>
  Every exception of \<^verbatim>\<open>selenic/util.py\<close> is a value. \<open>Exception\<close> and \<open>ValueError\<close>
  carry their message; \<open>IndexError\<close> is what Python raises when a list is read out of
  range; \<open>JavascriptException\<close> is what \<^verbatim>\<open>driver.execute_script\<close> raises when the
  script it runs throws.
\<close>

datatype error =
    Exception string
  | ValueError string
  | TypeError string
  | IndexError
  | JavascriptException

section \<open>The timeout stack of \<^verbatim>\<open>Util\<close>\<close>

text \<open>
  The part of the driver that \<^verbatim>\<open>Util\<close> reads and writes: its name and the script
  timeout that \<^verbatim>\<open>set_script_timeout\<close> installs. The type \<open>'t\<close> is the type of the
  timeout values.
\<close>

record 't driver =
  driver_name :: string
  script_timeout :: 't

definition set_script_timeout :: "'t \<Rightarrow> 't driver \<Rightarrow> 't driver" where
  "set_script_timeout v d = d\<lparr>script_timeout := v\<rparr>"

record 't util =
  driver :: "'t driver"
  timeouts :: "'t list"
  can_set_cookies :: bool

text \<open>\<^verbatim>\<open>Util.__init__(self, driver, default_timeout=2)\<close>\<close>

definition init :: "'t driver \<Rightarrow> 't \<Rightarrow> 't util" where
  "init d default_timeout =
     \<lparr>driver = set_script_timeout default_timeout d,
      timeouts = [default_timeout],
      can_set_cookies = (driver_name d \<noteq> ''internet explorer'')\<rparr>"

text \<open>The property \<^verbatim>\<open>timeout\<close>: \<^verbatim>\<open>self.timeouts[0]\<close>.\<close>

definition timeout :: "'t util \<Rightarrow> error + 't" where
  "timeout s = (case timeouts s of [] \<Rightarrow> Inl IndexError | t # _ \<Rightarrow> Inr t)"

text \<open>
  \<^verbatim>\<open>push_timeout\<close>: the slice assignment \<^verbatim>\<open>self.timeouts[0:0] = [new]\<close> inserts at the
  front, then the driver is told.
\<close>

definition push_timeout :: "'t \<Rightarrow> 't util \<Rightarrow> 't util" where
  "push_timeout new s =
     s\<lparr>timeouts := new # timeouts s,
       driver := set_script_timeout new (driver s)\<rparr>"

text \<open>
  \<^verbatim>\<open>pop_timeout\<close> returns its result together with the state it leaves. The raise comes
  before any assignment. On an empty list (which \<^verbatim>\<open>Util\<close> never builds) the read
  \<^verbatim>\<open>self.timeouts[1]\<close> raises.
\<close>

definition pop_timeout :: "'t util \<Rightarrow> (error + 't) \<times> 't util" where
  "pop_timeout s =
     (if length (timeouts s) = 1
      then (Inl (Exception ''can't pop when there is only one element on the stack''), s)
      else (case timeouts s of
              t0 # t1 # rest \<Rightarrow>
                (Inr t0, s\<lparr>driver := set_script_timeout t1 (driver s), timeouts := t1 # rest\<rparr>)
            | _ \<Rightarrow> (Inl IndexError, s)))"

text \<open>
  \<^verbatim>\<open>local_timeout\<close> is a context manager: push, run the body of the \<^verbatim>\<open>with\<close> block,
  and pop in the \<^verbatim>\<open>finally\<close> clause. The body is any computation on the state that
  returns normally (\<open>Inr\<close>) or raises (\<open>Inl\<close>). An exception of the pop replaces the
  body's outcome, as an exception raised in a \<^verbatim>\<open>finally\<close> clause does.
\<close>

definition local_timeout ::
  "'t \<Rightarrow> ('t util \<Rightarrow> (error + 'r) \<times> 't util) \<Rightarrow> 't util \<Rightarrow> (error + 'r) \<times> 't util" where
  "local_timeout v body s =
     (let s1 = push_timeout v s;
          (r, s2) = body s1;
          (p, s3) = pop_timeout s2
      in case p of Inl e \<Rightarrow> (Inl e, s3) | Inr _ \<Rightarrow> (r, s3))"

text \<open>
  The states a \<^verbatim>\<open>Util\<close> object can be in: built by the constructor, then changed by
  pushes and pops (a pop that raises leaves the state as it is).
\<close>

inductive reachable :: "'t util \<Rightarrow> bool" where
  reachable_init: "reachable (init d t)"
| reachable_push: "reachable s \<Longrightarrow> reachable (push_timeout v s)"
| reachable_pop: "reachable s \<Longrightarrow> reachable (snd (pop_timeout s))"

section \<open>\<^verbatim>\<open>locations_within\<close>\<close>

text \<open>
  A Python \<^verbatim>\<open>dict\<close> with string keys: its items in insertion order, the order in which
  \<^verbatim>\<open>a.items()\<close> and \<^verbatim>\<open>b.keys()\<close> iterate. The keys of a \<^verbatim>\<open>dict\<close> are distinct.
\<close>

type_synonym 'v dict = "(string \<times> 'v) list"

text \<open>\<^verbatim>\<open>del d[key]\<close>\<close>

definition dict_del :: "string \<Rightarrow> 'v dict \<Rightarrow> 'v dict" where
  "dict_del key d = filter (\<lambda>(k, v). k \<noteq> key) d"

text \<open>How \<^verbatim>\<open>str.format\<close> prints an \<^verbatim>\<open>int\<close>: decimal digits, a minus sign when negative.\<close>

function str_nat :: "nat \<Rightarrow> string" where
  "str_nat n =
     (if n < 10 then [''0123456789'' ! n]
      else str_nat (n div 10) @ [''0123456789'' ! (n mod 10)])"
  by pat_completeness auto
termination
  by (relation "measure id") auto

declare str_nat.simps [simp del]

definition str_int :: "int \<Rightarrow> string" where
  "str_int i = (if i < 0 then ''-'' @ str_nat (nat (- i)) else str_nat (nat i))"

text \<open>\<^verbatim>\<open>'key {0} differs: {1} {2}'.format(key, x, y)\<close>\<close>

definition mismatch :: "string \<Rightarrow> int \<Rightarrow> int \<Rightarrow> string" where
  "mismatch key x y = ''key '' @ key @ '' differs: '' @ str_int x @ '' '' @ str_int y"

text \<open>\<^verbatim>\<open>sep.join(xs)\<close>\<close>

fun join_str :: "string \<Rightarrow> string list \<Rightarrow> string" where
  "join_str sep [] = []"
| "join_str sep [x] = x"
| "join_str sep (x # y # ys) = x @ sep @ join_str sep (y # ys)"

text \<open>
  The \<^verbatim>\<open>for\<close> loop of \<^verbatim>\<open>locations_within\<close> over \<^verbatim>\<open>a.items()\<close>, with the two variables it
  updates: the copy of \<^verbatim>\<open>b\<close> and the string \<^verbatim>\<open>ret\<close>. The parameter \<open>py_int\<close> is the
  builtin \<^verbatim>\<open>int\<close> on the values of the mappings: \<open>Inr\<close> of the integer, or \<open>Inl\<close> of the
  exception for a value it cannot convert. \<^verbatim>\<open>int(value)\<close> is evaluated before
  \<^verbatim>\<open>int(b[key])\<close>. The loop has no \<^verbatim>\<open>break\<close> or \<^verbatim>\<open>return\<close>: it ends at the last item of
  \<^verbatim>\<open>a\<close>, or at a raise.
\<close>

fun locations_loop ::
  "('v \<Rightarrow> error + int) \<Rightarrow> int \<Rightarrow> 'v dict \<Rightarrow> 'v dict \<Rightarrow> string \<Rightarrow> error + (string \<times> 'v dict)" where
  "locations_loop py_int tolerance [] b ret = Inr (ret, b)"
| "locations_loop py_int tolerance ((key, val) # a) b ret =
     (case map_of b key of
        None \<Rightarrow> Inl (ValueError (''b does not have the key: '' @ key))
      | Some bval \<Rightarrow>
          (case py_int val of
             Inl e \<Rightarrow> Inl e
           | Inr x \<Rightarrow>
               (case py_int bval of
                  Inl e \<Rightarrow> Inl e
                | Inr y \<Rightarrow>
                    locations_loop py_int tolerance a (dict_del key b)
                      (if abs (x - y) > tolerance then ret @ mismatch key x y else ret))))"

definition locations_within ::
  "('v \<Rightarrow> error + int) \<Rightarrow> 'v dict \<Rightarrow> 'v dict \<Rightarrow> int \<Rightarrow> error + string" where
  "locations_within py_int a b tolerance =
     (case locations_loop py_int tolerance a b [] of
        Inl e \<Rightarrow> Inl e
      | Inr (ret, b') \<Rightarrow>
          if b' \<noteq> []
          then Inl (ValueError (''keys in b not seen in a: '' @ join_str '', '' (map fst b')))
          else Inr ret)"

text \<open>
  For the statements about \<^verbatim>\<open>locations_within\<close>: the integer \<^verbatim>\<open>int(d[key])\<close> where the
  key is present and its value converts, and the mappings all of whose values convert.
\<close>

definition int_of :: "('v \<Rightarrow> error + int) \<Rightarrow> 'v \<Rightarrow> int" where
  "int_of py_int v = (case py_int v of Inr i \<Rightarrow> i | Inl e \<Rightarrow> 0)"

definition int_at :: "('v \<Rightarrow> error + int) \<Rightarrow> 'v dict \<Rightarrow> string \<Rightarrow> int" where
  "int_at py_int d key = (case map_of d key of Some v \<Rightarrow> int_of py_int v | None \<Rightarrow> 0)"

definition coercible :: "('v \<Rightarrow> error + int) \<Rightarrow> 'v dict \<Rightarrow> bool" where
  "coercible py_int d = list_all (\<lambda>(k, v). \<not> isl (py_int v)) d"

section \<open>\<^verbatim>\<open>visible_to_user\<close>\<close>

text \<open>
  Elements are handles. An item of \<^verbatim>\<open>*ignorable\<close> is a jQuery selector string, as the
  docstring types it ("list of strings that are jQuery selectors"); the model also
  admits an element, the other kind of value that \<^verbatim>\<open>$(x)\<close> accepts. The commands sent
  to the driver are recorded in the order they are sent.
\<close>

type_synonym node = nat

datatype ignorable = Selector string | Element node

datatype command =
    IsDisplayed node
  | ScreenPositionScript node
  | ElementSize node
  | WindowInnerSizeScript
  | VisibilityScript node "ignorable list"

record position =
  pos_top :: int
  pos_left :: int

record dimensions =
  height :: int
  width :: int

record rect =
  rect_left :: int
  rect_top :: int
  rect_right :: int
  rect_bottom :: int

text \<open>
  The page the driver shows, as far as \<^verbatim>\<open>visible_to_user\<close> reads and writes it:
  \<^item> \<open>is_displayed\<close>, \<open>element_size\<close>: \<^verbatim>\<open>element.is_displayed()\<close>, \<^verbatim>\<open>element.size\<close>;
  \<^item> \<open>jq_offset\<close>, \<open>scroll_top\<close>, \<open>scroll_left\<close>: \<^verbatim>\<open>$(el).offset()\<close>,
    \<^verbatim>\<open>$(document).scrollTop()\<close>, \<^verbatim>\<open>$(document).scrollLeft()\<close>;
  \<^item> \<open>inner_size\<close>: \<^verbatim>\<open>window.innerHeight\<close>, \<^verbatim>\<open>window.innerWidth\<close>;
  \<^item> \<open>matches\<close>: the elements a selector matches, in document order;
  \<^item> \<open>node_contains\<close>: \<^verbatim>\<open>Node.contains\<close> on two nodes (a node contains itself and
    its descendants);
  \<^item> \<open>bounding_rect\<close>, \<open>element_from_point\<close>: \<^verbatim>\<open>el.getBoundingClientRect()\<close> and
    \<^verbatim>\<open>document.elementFromPoint(x, y)\<close>, which depend on which elements are displayed;
    \<open>None\<close> is JavaScript's \<^verbatim>\<open>null\<close>;
  \<^item> \<open>strict_bindings\<close>: whether \<^verbatim>\<open>Node.contains\<close> throws a \<^verbatim>\<open>TypeError\<close> on an argument
    that is neither a node nor \<^verbatim>\<open>null\<close> (as the DOM standard's bindings do) or
    answers \<^verbatim>\<open>false\<close> (as older engines did);
  \<^item> \<open>display\<close>: the CSS \<^verbatim>\<open>display\<close> value of each element, the one field the
    script writes;
  \<^item> \<open>calls\<close>: the commands sent so far.
\<close>

record page =
  is_displayed :: "node \<Rightarrow> bool"
  jq_offset :: "node \<Rightarrow> position"
  scroll_top :: int
  scroll_left :: int
  element_size :: "node \<Rightarrow> dimensions"
  inner_size :: dimensions
  matches :: "string \<Rightarrow> node list"
  node_contains :: "node \<Rightarrow> node \<Rightarrow> bool"
  bounding_rect :: "(node \<Rightarrow> string) \<Rightarrow> node \<Rightarrow> rect"
  element_from_point :: "(node \<Rightarrow> string) \<Rightarrow> int \<Rightarrow> int \<Rightarrow> node option"
  strict_bindings :: bool
  display :: "node \<Rightarrow> string"
  calls :: "command list"

definition record_command :: "command \<Rightarrow> page \<Rightarrow> page" where
  "record_command c p = p\<lparr>calls := calls p @ [c]\<rparr>"

text \<open>\<^verbatim>\<open>element_screen_position\<close>: the offset in the document minus the scroll position.\<close>

definition element_screen_position :: "node \<Rightarrow> page \<Rightarrow> position \<times> page" where
  "element_screen_position el p =
     (\<lparr>pos_top = pos_top (jq_offset p el) - scroll_top p,
       pos_left = pos_left (jq_offset p el) - scroll_left p\<rparr>,
      record_command (ScreenPositionScript el) p)"

definition get_window_inner_size :: "page \<Rightarrow> dimensions \<times> page" where
  "get_window_inner_size p = (inner_size p, record_command WindowInnerSizeScript p)"

text \<open>The condition under the comment \<^verbatim>\<open># Outside the viewport\<close>.\<close>

definition outside_viewport :: "position \<Rightarrow> dimensions \<Rightarrow> dimensions \<Rightarrow> bool" where
  "outside_viewport pos sz window_size =
     (pos_top pos + height sz < 0 \<or>
      pos_left pos + width sz < 0 \<or>
      pos_top pos > height window_size \<or>
      pos_left pos > width window_size)"

text \<open>
  jQuery, as the script uses it.
  \<^item> \<^verbatim>\<open>$(x)\<close> for one item \<^verbatim>\<open>x\<close>: the elements a selector string matches, or the element
    itself.
  \<^item> \<^verbatim>\<open>$(ignorable)\<close> for the array: jQuery wraps the items of an array as they are
    (\<^verbatim>\<open>jQuery.makeArray\<close>), it does not run the strings in it as selectors, and the
    setter \<^verbatim>\<open>.css(name, value)\<close> skips every item that has no \<^verbatim>\<open>style\<close>. So
    \<^verbatim>\<open>$ignorable.css("display", "none")\<close> reaches the items that are elements.
  \<^item> The getter \<^verbatim>\<open>.css("display")\<close> reads the first element of the set, and gives
    \<^verbatim>\<open>undefined\<close> (\<open>None\<close>) on an empty set.
  \<^item> The setter \<^verbatim>\<open>.css("display", v)\<close> writes every element of the set; with
    \<^verbatim>\<open>undefined\<close> for \<^verbatim>\<open>v\<close> it writes nothing.
\<close>

definition jq :: "page \<Rightarrow> ignorable \<Rightarrow> node list" where
  "jq p x = (case x of Selector s \<Rightarrow> matches p s | Element n \<Rightarrow> [n])"

definition jq_array :: "ignorable list \<Rightarrow> node list" where
  "jq_array xs = concat (map (\<lambda>x. case x of Selector s \<Rightarrow> [] | Element n \<Rightarrow> [n]) xs)"

definition css_get :: "page \<Rightarrow> node list \<Rightarrow> string option" where
  "css_get p ns = (case ns of [] \<Rightarrow> None | n # _ \<Rightarrow> Some (display p n))"

definition css_set :: "node list \<Rightarrow> string option \<Rightarrow> page \<Rightarrow> page" where
  "css_set ns v p =
     (case v of
        None \<Rightarrow> p
      | Some d \<Rightarrow> p\<lparr>display := (\<lambda>n. if n \<in> set ns then d else display p n)\<rparr>)"

text \<open>
  The values the variable \<^verbatim>\<open>at_corner\<close> can hold, and \<^verbatim>\<open>el.contains(at_corner)\<close>.
\<close>

datatype js_value = JBool bool | JNode node | JNull

datatype js_error = JsTypeError

definition el_contains :: "page \<Rightarrow> node \<Rightarrow> js_value \<Rightarrow> js_error + bool" where
  "el_contains p el v =
     (case v of
        JNode n \<Rightarrow> Inr (node_contains p el n)
      | JNull \<Rightarrow> Inr False
      | JBool b \<Rightarrow> if strict_bindings p then Inl JsTypeError else Inr False)"

text \<open>
  The four points the script samples, in its order: (left, top), (left, bottom),
  (right, top), (right, bottom).
\<close>

definition corners :: "rect \<Rightarrow> (int \<times> int) list" where
  "corners r =
     [(rect_left r, rect_top r), (rect_left r, rect_bottom r),
      (rect_right r, rect_top r), (rect_right r, rect_bottom r)]"

text \<open>
  The chain of \<^verbatim>\<open>||\<close> that computes \<^verbatim>\<open>ret\<close>, one step per corner:
  \<^verbatim>\<open>(at_corner = efp(x, y) === el) || el.contains(at_corner) || ...\<close>.
  In JavaScript \<^verbatim>\<open>===\<close> binds tighter than \<^verbatim>\<open>=\<close>, so the assignment stores the result
  of the comparison: \<^verbatim>\<open>at_corner\<close> is a boolean, and it is that boolean which is passed
  to \<^verbatim>\<open>el.contains\<close>. \<^verbatim>\<open>||\<close> stops at the first true operand.
\<close>

fun probe_corners :: "page \<Rightarrow> node \<Rightarrow> (int \<times> int) list \<Rightarrow> js_error + bool" where
  "probe_corners p el [] = Inr False"
| "probe_corners p el ((x, y) # cs) =
     (let at_corner = JBool (element_from_point p (display p) x y = Some el)
      in if at_corner = JBool True then Inr True
         else (case el_contains p el at_corner of
                 Inl e \<Rightarrow> Inl e
               | Inr c \<Rightarrow> if c then Inr True else probe_corners p el cs))"

text \<open>
  The \<^verbatim>\<open>finally\<close> block: \<^verbatim>\<open>$(x).css("display", old_displays[ix])\<close> for each item, in
  order.
\<close>

fun restore_displays :: "ignorable list \<Rightarrow> string option list \<Rightarrow> page \<Rightarrow> page" where
  "restore_displays (x # xs) (old # olds) p = restore_displays xs olds (css_set (jq p x) old p)"
| "restore_displays xs olds p = p"

text \<open>
  The script of \<^verbatim>\<open>visible_to_user\<close>: save the displays, hide, probe inside \<^verbatim>\<open>try\<close>,
  restore in \<^verbatim>\<open>finally\<close>, return \<^verbatim>\<open>ret\<close>. An exception thrown by the probe leaves the
  script after the \<^verbatim>\<open>finally\<close> block, and \<^verbatim>\<open>execute_script\<close> raises.
\<close>

definition visibility_script :: "node \<Rightarrow> ignorable list \<Rightarrow> page \<Rightarrow> (error + bool) \<times> page" where
  "visibility_script el ignorable p =
     (let old_displays = map (\<lambda>x. css_get p (jq p x)) ignorable;
          hidden = css_set (jq_array ignorable) (Some ''none'') p;
          ret = probe_corners hidden el (corners (bounding_rect hidden (display hidden) el));
          restored = restore_displays ignorable old_displays hidden
      in (case ret of Inl e \<Rightarrow> Inl JavascriptException | Inr r \<Rightarrow> Inr r, restored))"

definition visible_to_user :: "node \<Rightarrow> ignorable list \<Rightarrow> page \<Rightarrow> (error + bool) \<times> page" where
  "visible_to_user el ignorable p =
     (let p1 = record_command (IsDisplayed el) p in
      if \<not> is_displayed p1 el then (Inr False, p1)
      else
        let (pos, p2) = element_screen_position el p1;
            sz = element_size p2 el;
            p3 = record_command (ElementSize el) p2;
            (window_size, p4) = get_window_inner_size p3
        in if outside_viewport pos sz window_size then (Inr False, p4)
           else visibility_script el ignorable (record_command (VisibilityScript el ignorable) p4))"

text \<open>
  The specification's criterion, for comparison with the script: some corner of the
  bounding rectangle hit-tests to the element or to one of its descendants.
\<close>

definition spec_corner_visible :: "page \<Rightarrow> (node \<Rightarrow> string) \<Rightarrow> node \<Rightarrow> bool" where
  "spec_corner_visible p disp el =
     list_ex (\<lambda>(x, y). case element_from_point p disp x y of
                          None \<Rightarrow> False
                        | Some n \<Rightarrow> node_contains p el n)
       (corners (bounding_rect p disp el))"

text \<open>An item whose matched elements all have the display of the first one.\<close>

definition uniform_display :: "page \<Rightarrow> ignorable \<Rightarrow> bool" where
  "uniform_display p x = list_all (\<lambda>n. display p n = display p (hd (jq p x))) (jq p x)"

section \<open>Concrete inputs\<close>

text \<open>A driver, and three bodies for a \<^verbatim>\<open>with util.local_timeout(v):\<close> block:
  \<^verbatim>\<open>pass\<close>, \<^verbatim>\<open>raise Exception("boom")\<close> and \<^verbatim>\<open>util.push_timeout(w)\<close>.\<close>

definition firefox :: "int driver" where
  "firefox = \<lparr>driver_name = ''firefox'', script_timeout = 0\<rparr>"

definition idle_body :: "'t util \<Rightarrow> (error + unit) \<times> 't util" where
  "idle_body s = (Inr (), s)"

definition raising_body :: "'t util \<Rightarrow> (error + unit) \<times> 't util" where
  "raising_body s = (Inl (Exception ''boom''), s)"

definition push_only_body :: "'t \<Rightarrow> 't util \<Rightarrow> (error + unit) \<times> 't util" where
  "push_only_body w s = (Inr (), push_timeout w s)"

text \<open>\<^verbatim>\<open>int\<close> on a Python \<^verbatim>\<open>int\<close>: the value itself.\<close>

definition int_value :: "int \<Rightarrow> error + int" where
  "int_value i = Inr i"

text \<open>
  A page whose body is 0, with an element 1 at (10, 10), 100 wide and 100 high, and a
  child 2 of 1 that covers it: every point inside the box of 1 hit-tests to 2, every
  other point to the body. The selector \<^verbatim>\<open>.overlay\<close> matches two more elements, the
  block element 3 and the inline element 4. The parameter says whether
  \<^verbatim>\<open>Node.contains\<close> rejects an argument that is not a node.
\<close>

definition covered_page :: "bool \<Rightarrow> page" where
  "covered_page strict =
     \<lparr>is_displayed = (\<lambda>n. True),
      jq_offset = (\<lambda>n. \<lparr>pos_top = 10, pos_left = 10\<rparr>),
      scroll_top = 0,
      scroll_left = 0,
      element_size = (\<lambda>n. \<lparr>height = 100, width = 100\<rparr>),
      inner_size = \<lparr>height = 600, width = 800\<rparr>,
      matches = (\<lambda>s. if s = ''.overlay'' then [3, 4] else []),
      node_contains = (\<lambda>a b. a = b \<or> a = 0 \<or> (a = 1 \<and> b = 2)),
      bounding_rect = (\<lambda>d n. \<lparr>rect_left = 10, rect_top = 10, rect_right = 110, rect_bottom = 110\<rparr>),
      element_from_point =
        (\<lambda>d x y. if 10 \<le> x \<and> x < 110 \<and> 10 \<le> y \<and> y < 110 then Some 2 else Some 0),
      strict_bindings = strict,
      display = (\<lambda>n. if n = 4 then ''inline'' else ''block''),
      calls = []\<rparr>"

section \<open>Properties of the timeout stack\<close>

text \<open>
  In every reachable state the stack is not empty and the driver's script timeout is
  the front of the stack.
\<close>

lemma reachable_invariant:
  "reachable s \<Longrightarrow> timeouts s \<noteq> [] \<and> script_timeout (driver s) = hd (timeouts s)"
proof (induction rule: reachable.induct)
  case (reachable_init d t)
  show ?case by (simp add: init_def set_script_timeout_def)
next
  case (reachable_push s v)
  show ?case by (simp add: push_timeout_def set_script_timeout_def)
next
  case (reachable_pop s)
  then show ?case
    by (auto simp: pop_timeout_def set_script_timeout_def split: list.splits)
qed

text \<open>
  Claim C1. In every reachable state, \<^verbatim>\<open>push_timeout(v)\<close> puts \<open>v\<close> at the front of the
  stack, makes it the current timeout and the driver's script timeout; the
  \<^verbatim>\<open>pop_timeout()\<close> that follows returns \<open>v\<close> and leaves the state exactly as it was
  before the push: the same stack and the same driver timeout.
\<close>

theorem push_then_pop_restores:
  assumes "reachable s"
  shows "timeouts (push_timeout v s) = v # timeouts s
       \<and> timeout (push_timeout v s) = Inr v
       \<and> script_timeout (driver (push_timeout v s)) = v
       \<and> pop_timeout (push_timeout v s) = (Inr v, s)"
proof -
  from assms have inv: "timeouts s \<noteq> []" "script_timeout (driver s) = hd (timeouts s)"
    using reachable_invariant by blast+
  then obtain t ts where ts: "timeouts s = t # ts"
    by (cases "timeouts s") auto
  have "pop_timeout (push_timeout v s) = (Inr v, s)"
    using inv ts by (simp add: pop_timeout_def push_timeout_def set_script_timeout_def)
  then show ?thesis
    by (simp add: timeout_def push_timeout_def set_script_timeout_def)
qed

theorem push_then_pop_restores_witness:
  "reachable (push_timeout 7 (init firefox 2))
   \<and> timeout (push_timeout 5 (push_timeout 7 (init firefox 2))) = Inr 5
   \<and> script_timeout (driver (push_timeout 5 (push_timeout 7 (init firefox 2)))) = 5
   \<and> pop_timeout (push_timeout 5 (push_timeout 7 (init firefox 2))) =
       (Inr 5, push_timeout 7 (init firefox 2))"
proof -
  have r: "reachable (push_timeout 7 (init firefox 2))"
    by (intro reachable_push reachable_init)
  show ?thesis
    using r push_then_pop_restores [OF r, of 5] by simp
qed

text \<open>
  Claim C2. When the stack holds exactly one element, \<^verbatim>\<open>pop_timeout()\<close> raises the
  exception "can't pop when there is only one element on the stack" and the state is
  the one before the call: the stack and the driver's script timeout are unchanged.
\<close>

theorem pop_single_fails:
  assumes "length (timeouts s) = 1"
  shows "pop_timeout s =
    (Inl (Exception ''can't pop when there is only one element on the stack''), s)"
  using assms by (simp add: pop_timeout_def)

theorem pop_single_fails_witness:
  "length (timeouts (init firefox 2)) = 1
   \<and> pop_timeout (init firefox 2) =
       (Inl (Exception ''can't pop when there is only one element on the stack''), init firefox 2)
   \<and> timeouts (snd (pop_timeout (init firefox 2))) = [2]
   \<and> script_timeout (driver (snd (pop_timeout (init firefox 2)))) = 2"
proof -
  have l: "length (timeouts (init firefox 2)) = 1" by (simp add: init_def)
  show ?thesis
    using l pop_single_fails [OF l] by (simp add: init_def set_script_timeout_def)
qed

text \<open>
  Claim C9. \<^verbatim>\<open>local_timeout(v)\<close> pushes \<open>v\<close>, runs the body and pops once, whether the body
  returns or raises: the state after the scope is the state one pop leaves from the
  state the body left. The stack is back at its prior contents only when the body
  leaves the stack as it found it. Here the body pushes 7 and does not pop: the scope
  is entered with the stack [2] and left with the stack [5, 2] and the driver's
  timeout at 5.
\<close>

theorem local_timeout_unbalanced_body:
  "timeouts (init firefox 2) = [2]
   \<and> script_timeout (driver (init firefox 2)) = 2
   \<and> fst (local_timeout 5 (push_only_body 7) (init firefox 2)) = Inr ()
   \<and> timeouts (snd (local_timeout 5 (push_only_body 7) (init firefox 2))) = [5, 2]
   \<and> script_timeout (driver (snd (local_timeout 5 (push_only_body 7) (init firefox 2)))) = 5"
  by (simp add: local_timeout_def push_only_body_def push_timeout_def pop_timeout_def
      init_def set_script_timeout_def)

text \<open>
  Claim C9, as amended. From a reachable state, \<^verbatim>\<open>local_timeout(v)\<close> pushes \<open>v\<close>, runs
  the body and pops once, whether the body returns or raises. When the body leaves the
  stack as it found it, the stack after the scope has its prior contents, the driver's
  script timeout is the prior one, and the outcome of the scope is the outcome of the
  body (its result, or the exception it raised).
\<close>

theorem local_timeout_restores:
  assumes "reachable s"
    and "timeouts (snd (body (push_timeout v s))) = timeouts (push_timeout v s)"
  shows "snd (local_timeout v body s) = snd (pop_timeout (snd (body (push_timeout v s))))
       \<and> timeouts (snd (local_timeout v body s)) = timeouts s
       \<and> script_timeout (driver (snd (local_timeout v body s))) = script_timeout (driver s)
       \<and> fst (local_timeout v body s) = fst (body (push_timeout v s))"
proof -
  from assms(1) have inv: "timeouts s \<noteq> []" "script_timeout (driver s) = hd (timeouts s)"
    using reachable_invariant by blast+
  then obtain t ts where ts: "timeouts s = t # ts"
    by (cases "timeouts s") auto
  obtain r s2 where b: "body (push_timeout v s) = (r, s2)"
    by (cases "body (push_timeout v s)")
  with assms(2) ts have s2: "timeouts s2 = v # t # ts"
    by (simp add: push_timeout_def)
  then have p: "pop_timeout s2 =
      (Inr v, s2\<lparr>driver := set_script_timeout t (driver s2), timeouts := t # ts\<rparr>)"
    by (simp add: pop_timeout_def)
  show ?thesis
    using b p ts inv by (simp add: local_timeout_def set_script_timeout_def)
qed

theorem local_timeout_restores_witness:
  "reachable (init firefox 2)
   \<and> timeouts (snd (raising_body (push_timeout 5 (init firefox 2)))) =
       timeouts (push_timeout 5 (init firefox 2))
   \<and> timeouts (snd (local_timeout 5 raising_body (init firefox 2))) = [2]
   \<and> script_timeout (driver (snd (local_timeout 5 raising_body (init firefox 2)))) = 2
   \<and> fst (local_timeout 5 raising_body (init firefox 2)) = Inl (Exception ''boom'')
   \<and> timeouts (snd (idle_body (push_timeout 5 (init firefox 2)))) =
       timeouts (push_timeout 5 (init firefox 2))
   \<and> timeouts (snd (local_timeout 5 idle_body (init firefox 2))) = [2]
   \<and> script_timeout (driver (snd (local_timeout 5 idle_body (init firefox 2)))) = 2
   \<and> fst (local_timeout 5 idle_body (init firefox 2)) = Inr ()"
proof -
  have r: "reachable (init firefox 2)" by (rule reachable_init)
  have b: "timeouts (snd (raising_body (push_timeout 5 (init firefox 2)))) =
           timeouts (push_timeout 5 (init firefox 2))"
    by (simp add: raising_body_def)
  have i: "timeouts (snd (idle_body (push_timeout 5 (init firefox 2)))) =
           timeouts (push_timeout 5 (init firefox 2))"
    by (simp add: idle_body_def)
  show ?thesis
    using r b i
      local_timeout_restores [where s = "init firefox 2" and body = raising_body and v = 5, OF r b]
      local_timeout_restores [where s = "init firefox 2" and body = idle_body and v = 5, OF r i]
    by (simp add: init_def set_script_timeout_def raising_body_def idle_body_def
        push_timeout_def pop_timeout_def)
qed

section \<open>Properties of \<^verbatim>\<open>locations_within\<close>\<close>

lemma map_of_dict_del: "k' \<noteq> key \<Longrightarrow> map_of (dict_del key d) k' = map_of d k'"
  by (induction d) (auto simp: dict_del_def)

lemma keys_dict_del: "fst ` set (dict_del key d) = fst ` set d - {key}"
  by (force simp: dict_del_def)

lemma int_at_dict_del: "k' \<noteq> key \<Longrightarrow> int_at py_int (dict_del key d) k' = int_at py_int d k'"
  by (simp add: int_at_def map_of_dict_del)

lemma coercible_dict_del: "coercible py_int d \<Longrightarrow> coercible py_int (dict_del key d)"
  by (simp add: coercible_def dict_del_def list_all_iff)

lemma coercible_lookup:
  "coercible py_int d \<Longrightarrow> map_of d k = Some v \<Longrightarrow> py_int v = Inr (int_of py_int v)"
  by (cases "py_int v") (auto simp: coercible_def list_all_iff int_of_def dest!: map_of_SomeD)

lemma dict_del_filter:
  "filter (\<lambda>(k', v'). k' \<notin> fst ` set a) (dict_del k b) =
   filter (\<lambda>(k', v'). k' \<noteq> k \<and> k' \<notin> fst ` set a) b"
  by (induction b) (auto simp: dict_del_def)

text \<open>
  What the loop computes on mappings whose values convert: it raises at the first key
  of \<^verbatim>\<open>a\<close> that \<^verbatim>\<open>b\<close> lacks; otherwise it appends one description for every key out of
  tolerance and leaves in \<^verbatim>\<open>b\<close> the items whose keys \<^verbatim>\<open>a\<close> lacks.
\<close>

lemma locations_loop_result:
  assumes "distinct (map fst a)" and "coercible py_int a" and "coercible py_int b"
  shows "locations_loop py_int tolerance a b ret =
    (case filter (\<lambda>k. k \<notin> fst ` set b) (map fst a) of
       k # ks \<Rightarrow> Inl (ValueError (''b does not have the key: '' @ k))
     | [] \<Rightarrow>
         Inr (ret @ concat (map (\<lambda>(k, v). mismatch k (int_of py_int v) (int_at py_int b k))
                         (filter (\<lambda>(k, v). tolerance < abs (int_of py_int v - int_at py_int b k)) a)),
              filter (\<lambda>(k, v). k \<notin> fst ` set a) b))"
  using assms
proof (induction a arbitrary: b ret)
  case Nil
  show ?case by simp
next
  case (Cons p a)
  obtain k v where p: "p = (k, v)" by (cases p)
  from Cons.prems p have dist: "distinct (map fst a)" and fresh: "k \<notin> fst ` set a"
    and ca: "coercible py_int a" and cv: "py_int v = Inr (int_of py_int v)"
    by (auto simp: coercible_def int_of_def split: sum.splits)
  show ?case
  proof (cases "map_of b k")
    case None
    then have "k \<notin> fst ` set b" by (simp add: map_of_eq_None_iff)
    with None p show ?thesis by simp
  next
    case (Some bv)
    then have kb: "k \<in> fst ` set b"
      by (metis map_of_eq_None_iff option.distinct(1))
    have cb: "py_int bv = Inr (int_of py_int bv)"
      using coercible_lookup [OF Cons.prems(3) Some] .
    have at: "int_at py_int b k = int_of py_int bv"
      by (simp add: int_at_def Some)
    let ?b = "dict_del k b"
    let ?ret = "if tolerance < abs (int_of py_int v - int_of py_int bv)
                then ret @ mismatch k (int_of py_int v) (int_of py_int bv) else ret"
    have step: "locations_loop py_int tolerance (p # a) b ret =
                locations_loop py_int tolerance a ?b ?ret"
      using p Some cv cb by simp
    have ne: "\<And>k' v'. (k', v') \<in> set a \<Longrightarrow> k' \<noteq> k"
      using fresh by force
    have keys: "filter (\<lambda>k'. k' \<notin> fst ` set ?b) (map fst a) =
                filter (\<lambda>k'. k' \<notin> fst ` set b) (map fst a)"
      using fresh by (intro filter_cong refl) (auto simp: keys_dict_del)
    have flt: "filter (\<lambda>(k', v'). tolerance < abs (int_of py_int v' - int_at py_int ?b k')) a =
               filter (\<lambda>(k', v'). tolerance < abs (int_of py_int v' - int_at py_int b k')) a"
      by (intro filter_cong refl) (auto simp: int_at_dict_del dest: ne)
    have mp: "map (\<lambda>(k', v'). mismatch k' (int_of py_int v') (int_at py_int ?b k')) xs =
              map (\<lambda>(k', v'). mismatch k' (int_of py_int v') (int_at py_int b k')) xs"
      if "set xs \<subseteq> set a" for xs
    proof -
      have "k' \<noteq> k" if "(k', v') \<in> set xs" for k' v'
        using that \<open>set xs \<subseteq> set a\<close> ne by blast
      then show ?thesis
        by (intro map_cong refl) (auto simp: int_at_dict_del)
    qed
    note ih = Cons.IH [OF dist ca coercible_dict_del [OF Cons.prems(3)], of k ?ret]
    have hd_in: "filter (\<lambda>k'. k' \<notin> fst ` set b) (map fst (p # a)) =
                 filter (\<lambda>k'. k' \<notin> fst ` set b) (map fst a)"
      using kb p by simp
    show ?thesis
    proof (cases "filter (\<lambda>k'. k' \<notin> fst ` set b) (map fst a)")
      case Nil
      then show ?thesis
        unfolding step ih hd_in keys
        using p at kb by (simp add: flt mp dict_del_filter)
    next
      case (Cons k' ks)
      then show ?thesis
        unfolding step ih hd_in keys by simp
    qed
  qed
qed

lemma int_at_member:
  "distinct (map fst a) \<Longrightarrow> (k, v) \<in> set a \<Longrightarrow> int_at py_int a k = int_of py_int v"
  by (simp add: int_at_def)

lemma pairs_as_keys:
  assumes "distinct (map fst a)"
  shows "concat (map (\<lambda>(k, v). mismatch k (int_of py_int v) (int_at py_int b k))
           (filter (\<lambda>(k, v). tolerance < abs (int_of py_int v - int_at py_int b k)) a)) =
         concat (map (\<lambda>k. mismatch k (int_at py_int a k) (int_at py_int b k))
           (filter (\<lambda>k. tolerance < abs (int_at py_int a k - int_at py_int b k)) (map fst a)))"
proof -
  have f: "filter (\<lambda>k. tolerance < abs (int_at py_int a k - int_at py_int b k)) (map fst a) =
           map fst (filter (\<lambda>(k, v). tolerance < abs (int_of py_int v - int_at py_int b k)) a)"
    unfolding filter_map
    by (intro arg_cong [where f = "map fst"] filter_cong refl)
       (auto simp: int_at_member [OF assms])
  show ?thesis
    unfolding f map_map
    by (intro arg_cong [where f = concat] map_cong refl)
       (auto simp: int_at_member [OF assms])
qed

lemma mismatch_not_empty: "mismatch k x y \<noteq> []"
  by (simp add: mismatch_def)

lemma concat_mismatch_empty:
  "(concat (map (\<lambda>k. mismatch k (f k) (g k)) ks) = []) = (ks = [])"
  by (cases ks) (auto simp: mismatch_not_empty)

lemma no_leftover:
  "fst ` set b \<subseteq> fst ` set a \<Longrightarrow> filter (\<lambda>(k, v). k \<notin> fst ` set a) b = []"
  by (force simp: filter_empty_conv)

lemma leftover_keys:
  "map fst (filter (\<lambda>(k, v). k \<notin> fst ` set a) b) = filter (\<lambda>k. k \<notin> fst ` set a) (map fst b)"
  by (simp add: filter_map comp_def case_prod_unfold)

text \<open>
  A loop that ends without a raise has found every key of \<^verbatim>\<open>a\<close> in \<^verbatim>\<open>b\<close> and has
  deleted exactly those keys from its copy of \<^verbatim>\<open>b\<close>.
\<close>

lemma locations_loop_keys:
  "locations_loop py_int tolerance a b ret = Inr (r, b') \<Longrightarrow>
     fst ` set a \<subseteq> fst ` set b \<and> fst ` set b' = fst ` set b - fst ` set a"
proof (induction a arbitrary: b ret)
  case Nil
  then show ?case by auto
next
  case (Cons p a)
  obtain k v where p: "p = (k, v)" by (cases p)
  from Cons.prems p obtain bv ret' where
    look: "map_of b k = Some bv" and
    rest: "locations_loop py_int tolerance a (dict_del k b) ret' = Inr (r, b')"
    by (auto split: option.splits sum.splits)
  from look have kb: "k \<in> fst ` set b"
    by (metis map_of_eq_None_iff option.distinct(1))
  from Cons.IH [OF rest] kb p show ?case
    by (auto simp: keys_dict_del)
qed

text \<open>
  Claim C3. For mappings \<^verbatim>\<open>a\<close> and \<^verbatim>\<open>b\<close> with the same keys and values that \<^verbatim>\<open>int\<close>
  converts, \<^verbatim>\<open>locations_within(a, b, tolerance)\<close> returns the concatenation, in the
  order of \<^verbatim>\<open>a\<close>, of one description for every key whose absolute difference exceeds
  the tolerance (every such key, not the first only). The result is the empty string
  exactly when every key's absolute difference is at most the tolerance: a difference
  equal to the tolerance passes.
\<close>

theorem locations_within_same_keys:
  assumes "distinct (map fst a)" and "fst ` set a = fst ` set b"
    and "coercible py_int a" and "coercible py_int b"
  shows "locations_within py_int a b tolerance =
           Inr (concat (map (\<lambda>k. mismatch k (int_at py_int a k) (int_at py_int b k))
                  (filter (\<lambda>k. tolerance < abs (int_at py_int a k - int_at py_int b k)) (map fst a))))
       \<and> ((locations_within py_int a b tolerance = Inr []) =
            (\<forall>k \<in> fst ` set a. abs (int_at py_int a k - int_at py_int b k) \<le> tolerance))"
proof -
  have none: "filter (\<lambda>k. k \<notin> fst ` set b) (map fst a) = []"
    using assms(2) by (auto simp: filter_empty_conv)
  have left: "filter (\<lambda>(k, v). k \<notin> fst ` set a) b = []"
    using assms(2) by (intro no_leftover) simp
  have res: "locations_within py_int a b tolerance =
           Inr (concat (map (\<lambda>k. mismatch k (int_at py_int a k) (int_at py_int b k))
                  (filter (\<lambda>k. tolerance < abs (int_at py_int a k - int_at py_int b k)) (map fst a))))"
    unfolding locations_within_def locations_loop_result [OF assms(1,3,4)] none
    by (simp add: left pairs_as_keys [OF assms(1)])
  have "(locations_within py_int a b tolerance = Inr []) =
        (filter (\<lambda>k. tolerance < abs (int_at py_int a k - int_at py_int b k)) (map fst a) = [])"
    unfolding res sum.inject concat_mismatch_empty by (rule refl)
  also have "\<dots> = (\<forall>k \<in> fst ` set a. abs (int_at py_int a k - int_at py_int b k) \<le> tolerance)"
    by (simp add: filter_empty_conv not_less)
  finally show ?thesis using res by blast
qed

theorem locations_within_same_keys_witness:
  "distinct (map fst [(''x'', 10), (''y'', 20 :: int)])
   \<and> fst ` set [(''x'', 10), (''y'', 20 :: int)] = fst ` set [(''y'', 22), (''x'', 8 :: int)]
   \<and> coercible int_value [(''x'', 10), (''y'', 20)]
   \<and> coercible int_value [(''y'', 22), (''x'', 8)]
   \<and> locations_within int_value [(''x'', 10), (''y'', 20)] [(''y'', 22), (''x'', 8)] 2 = Inr []
   \<and> locations_within int_value [(''x'', 10), (''y'', 20)] [(''y'', 22), (''x'', 8)] 1 =
         Inr ''key x differs: 10 8key y differs: 20 22''"
proof -
  have d: "distinct (map fst [(''x'', 10), (''y'', 20 :: int)])" by simp
  have k: "fst ` set [(''x'', 10), (''y'', 20 :: int)] = fst ` set [(''y'', 22), (''x'', 8 :: int)]"
    by auto
  have ca: "coercible int_value [(''x'', 10), (''y'', 20)]"
    by (simp add: coercible_def int_value_def)
  have cb: "coercible int_value [(''y'', 22), (''x'', 8)]"
    by (simp add: coercible_def int_value_def)
  show ?thesis
    using d k ca cb
      locations_within_same_keys [OF d k ca cb, of 2]
      locations_within_same_keys [OF d k ca cb, of 1]
    by (simp add: int_at_def int_of_def int_value_def mismatch_def str_int_def str_nat.simps)
qed

text \<open>
  Claim C4. The claim is that \<^verbatim>\<open>locations_within\<close> returns at the first difference out
  of tolerance and checks no key after it, as the docstring says ("the function will
  return as soon as it knows that the two locations are not within tolerance"). The
  loop does not: with \<^verbatim>\<open>x\<close> out of tolerance it goes on to \<^verbatim>\<open>y\<close>, describes it too,
  and still raises on a key that one of the mappings lacks.
\<close>

theorem locations_within_checks_every_key:
  "locations_within int_value [(''x'', 0), (''y'', 0)] [(''x'', 10), (''y'', 10)] 2 =
     Inr ''key x differs: 0 10key y differs: 0 10''
   \<and> locations_within int_value [(''x'', 0), (''y'', 0)] [(''x'', 10)] 2 =
     Inl (ValueError ''b does not have the key: y'')
   \<and> locations_within int_value [(''x'', 0)] [(''x'', 10), (''y'', 10)] 2 =
     Inl (ValueError ''keys in b not seen in a: y'')"
  by (simp add: locations_within_def int_value_def mismatch_def str_int_def str_nat.simps dict_del_def)

text \<open>
  Claim C5. For mappings whose key sets differ (and whose values \<^verbatim>\<open>int\<close> converts),
  \<^verbatim>\<open>locations_within\<close> raises a \<^verbatim>\<open>ValueError\<close> that names the keys: when some key of
  \<^verbatim>\<open>a\<close> is absent from \<^verbatim>\<open>b\<close>, the first such key of \<^verbatim>\<open>a\<close>; otherwise the keys of \<^verbatim>\<open>b\<close>
  that are absent from \<^verbatim>\<open>a\<close>, joined by ", ".
\<close>

theorem locations_within_key_mismatch:
  assumes "distinct (map fst a)" and "coercible py_int a" and "coercible py_int b"
    and "fst ` set a \<noteq> fst ` set b"
  shows "locations_within py_int a b tolerance =
    (case filter (\<lambda>k. k \<notin> fst ` set b) (map fst a) of
       k # ks \<Rightarrow> Inl (ValueError (''b does not have the key: '' @ k))
     | [] \<Rightarrow> Inl (ValueError (''keys in b not seen in a: '' @
               join_str '', '' (filter (\<lambda>k. k \<notin> fst ` set a) (map fst b)))))"
proof (cases "filter (\<lambda>k. k \<notin> fst ` set b) (map fst a)")
  case Nil
  then have sub: "fst ` set a \<subseteq> fst ` set b"
    by (auto simp: filter_empty_conv)
  with assms(4) obtain k where "k \<in> fst ` set b" "k \<notin> fst ` set a"
    by blast
  then have "filter (\<lambda>k. k \<notin> fst ` set a) (map fst b) \<noteq> []"
    by (auto simp: filter_empty_conv)
  then have ne: "filter (\<lambda>(k, v). k \<notin> fst ` set a) b \<noteq> []"
    unfolding leftover_keys [symmetric] by simp
  show ?thesis
    unfolding locations_within_def locations_loop_result [OF assms(1,2,3)] Nil
    using ne by (simp add: leftover_keys)
next
  case (Cons k ks)
  show ?thesis
    unfolding locations_within_def locations_loop_result [OF assms(1,2,3)] Cons
    by simp
qed

theorem locations_within_key_mismatch_witness:
  "distinct (map fst [(''x'', 1), (''y'', 2 :: int)])
   \<and> coercible int_value [(''x'', 1), (''y'', 2)]
   \<and> coercible int_value [(''x'', 1)]
   \<and> fst ` set [(''x'', 1), (''y'', 2 :: int)] \<noteq> fst ` set [(''x'', 1 :: int)]
   \<and> locations_within int_value [(''x'', 1), (''y'', 2)] [(''x'', 1)] 0 =
         Inl (ValueError ''b does not have the key: y'')
   \<and> locations_within int_value [(''x'', 1)] [(''x'', 1), (''y'', 2)] 0 =
         Inl (ValueError ''keys in b not seen in a: y'')"
proof -
  have d: "distinct (map fst [(''x'', 1), (''y'', 2 :: int)])" by simp
  have d': "distinct (map fst [(''x'', 1 :: int)])" by simp
  have ca: "coercible int_value [(''x'', 1), (''y'', 2)]"
    by (simp add: coercible_def int_value_def)
  have cb: "coercible int_value [(''x'', 1)]"
    by (simp add: coercible_def int_value_def)
  have k: "fst ` set [(''x'', 1), (''y'', 2 :: int)] \<noteq> fst ` set [(''x'', 1 :: int)]"
    by auto
  show ?thesis
    using d ca cb k
      locations_within_key_mismatch [OF d ca cb k, of 0]
      locations_within_key_mismatch [OF d' cb ca k [symmetric], of 0]
    by simp
qed

text \<open>
  Claim C10. Whenever \<^verbatim>\<open>locations_within(a, b, tolerance)\<close> returns a string, empty or
  not, the key sets of \<^verbatim>\<open>a\<close> and \<^verbatim>\<open>b\<close> are equal: the loop visits every key of \<^verbatim>\<open>a\<close>
  and the check after it finds nothing left in \<^verbatim>\<open>b\<close>.
\<close>

theorem locations_within_return_same_keys:
  assumes "locations_within py_int a b tolerance = Inr s"
  shows "fst ` set a = fst ` set b"
proof -
  from assms obtain r where "locations_loop py_int tolerance a b [] = Inr (r, [])"
    by (auto simp: locations_within_def split: sum.splits if_splits)
  from locations_loop_keys [OF this] show ?thesis by auto
qed

theorem locations_within_return_same_keys_witness:
  "locations_within int_value [(''x'', 10)] [(''x'', 15)] 2 = Inr ''key x differs: 10 15''
   \<and> fst ` set [(''x'', 10 :: int)] = fst ` set [(''x'', 15 :: int)]"
proof -
  have r: "locations_within int_value [(''x'', 10)] [(''x'', 15)] 2 = Inr ''key x differs: 10 15''"
    by (simp add: locations_within_def int_value_def mismatch_def str_int_def str_nat.simps
        dict_del_def)
  show ?thesis
    using r locations_within_return_same_keys [OF r] by simp
qed

section \<open>Properties of \<^verbatim>\<open>visible_to_user\<close>\<close>

text \<open>
  What the chain of \<^verbatim>\<open>||\<close> computes. \<^verbatim>\<open>el.contains\<close> is only ever called with
  \<^verbatim>\<open>false\<close>. Where that call answers \<^verbatim>\<open>false\<close>, the result is whether some corner
  hit-tests to the element itself. Where it throws, the script throws unless the first
  corner hit-tests to the element itself. In no case does a hit on a descendant count.
\<close>

lemma probe_corners_lenient:
  "\<not> strict_bindings p \<Longrightarrow>
     probe_corners p el cs =
       Inr (list_ex (\<lambda>(x, y). element_from_point p (display p) x y = Some el) cs)"
  by (induction cs) (auto simp: el_contains_def)

lemma probe_corners_strict:
  "strict_bindings p \<Longrightarrow>
     probe_corners p el ((x, y) # cs) =
       (if element_from_point p (display p) x y = Some el then Inr True else Inl JsTypeError)"
  by (simp add: el_contains_def)

lemma probe_corners_true:
  "probe_corners p el cs = Inr True \<Longrightarrow>
     list_ex (\<lambda>(x, y). element_from_point p (display p) x y = Some el) cs"
  by (induction cs) (auto simp: el_contains_def split: if_splits)

lemma visible_to_user_true_exact_hit:
  assumes "fst (visible_to_user el ignorable p) = Inr True"
  shows "\<exists>disp. list_ex (\<lambda>(x, y). element_from_point p disp x y = Some el)
           (corners (bounding_rect p disp el))"
proof -
  let ?p4 = "p\<lparr>calls := calls p @
      [IsDisplayed el, ScreenPositionScript el, ElementSize el, WindowInnerSizeScript,
       VisibilityScript el ignorable]\<rparr>"
  let ?h = "css_set (jq_array ignorable) (Some ''none'') ?p4"
  from assms have "fst (visibility_script el ignorable ?p4) = Inr True"
    by (simp add: visible_to_user_def record_command_def element_screen_position_def
        get_window_inner_size_def Let_def split: if_splits)
  then have "probe_corners ?h el (corners (bounding_rect ?h (display ?h) el)) = Inr True"
    by (simp add: visibility_script_def Let_def split: sum.splits)
  from probe_corners_true [OF this]
  have "list_ex (\<lambda>(x, y). element_from_point p (display ?h) x y = Some el)
           (corners (bounding_rect p (display ?h) el))"
    by (simp add: css_set_def)
  then show ?thesis by blast
qed

text \<open>
  Claim C6. The claim is that, past the cheap checks, \<^verbatim>\<open>visible_to_user\<close> reports the
  element visible exactly when some corner of its bounding rectangle hit-tests to the
  element or to a descendant of it. On the page where the child 2 covers the element 1,
  the top-left corner hit-tests to the descendant 2, so the criterion holds; the call
  raises where \<^verbatim>\<open>Node.contains\<close> rejects a boolean, and returns \<^verbatim>\<open>False\<close> where it
  accepts one.
\<close>

theorem visible_to_user_misses_descendant:
  "spec_corner_visible (covered_page True) (display (covered_page True)) 1
   \<and> fst (visible_to_user 1 [] (covered_page True)) = Inl JavascriptException
   \<and> spec_corner_visible (covered_page False) (display (covered_page False)) 1
   \<and> fst (visible_to_user 1 [] (covered_page False)) = Inr False"
  by (simp add: spec_corner_visible_def covered_page_def visible_to_user_def visibility_script_def
      record_command_def element_screen_position_def get_window_inner_size_def outside_viewport_def
      corners_def el_contains_def css_set_def jq_array_def Let_def)

text \<open>
  The restore step: when the elements each item matches share one display value (in
  particular when each item is an element, or a selector that matches one element),
  the display of every element after the call is its display before the call, whether
  the probe returned or threw.
\<close>

lemma jq_css_set: "jq (css_set ns v q) x = jq q x"
  by (simp add: jq_def css_set_def split: option.splits ignorable.splits)

lemma restore_displays_display:
  assumes "list_all (uniform_display p) xs" and "matches q = matches p"
  shows "display (restore_displays xs (map (\<lambda>x. css_get p (jq p x)) xs) q) n =
           (if n \<in> (\<Union>x \<in> set xs. set (jq p x)) then display p n else display q n)"
  using assms
proof (induction xs arbitrary: q)
  case Nil
  show ?case by simp
next
  case (Cons x xs)
  let ?q = "css_set (jq q x) (css_get p (jq p x)) q"
  have same: "jq q x = jq p x"
    using Cons.prems(2) by (simp add: jq_def split: ignorable.splits)
  have m: "matches ?q = matches p"
    using Cons.prems(2) by (simp add: css_set_def split: option.splits)
  have u: "\<And>m. m \<in> set (jq p x) \<Longrightarrow> display p m = display p (hd (jq p x))"
    using Cons.prems(1) by (simp add: uniform_display_def list_all_iff)
  have step: "display ?q n = (if n \<in> set (jq p x) then display p n else display q n)"
    using u [of n] by (cases "jq p x") (auto simp: css_set_def css_get_def same)
  from Cons.prems(1) have "list_all (uniform_display p) xs" by simp
  from Cons.IH [OF this m] step show ?case by simp
qed

lemma visibility_script_display:
  assumes "list_all (uniform_display p) ignorable"
  shows "display (snd (visibility_script el ignorable p)) = display p"
proof
  fix n
  let ?h = "css_set (jq_array ignorable) (Some ''none'') p"
  have m: "matches ?h = matches p" by (simp add: css_set_def)
  have hid: "n \<in> set (jq_array ignorable) \<Longrightarrow> n \<in> (\<Union>x \<in> set ignorable. set (jq p x))"
    by (auto simp: jq_array_def jq_def split: ignorable.splits)
  have "display (snd (visibility_script el ignorable p)) n =
        display (restore_displays ignorable (map (\<lambda>x. css_get p (jq p x)) ignorable) ?h) n"
    by (simp add: visibility_script_def Let_def)
  also have "\<dots> = (if n \<in> (\<Union>x \<in> set ignorable. set (jq p x)) then display p n else display ?h n)"
    by (rule restore_displays_display [OF assms m])
  also have "\<dots> = display p n"
    using hid by (auto simp: css_set_def)
  finally show "display (snd (visibility_script el ignorable p)) n = display p n" .
qed

lemma jq_calls: "jq (p\<lparr>calls := c\<rparr>) x = jq p x"
  by (cases x) (simp_all add: jq_def)

lemma uniform_display_calls: "uniform_display (p\<lparr>calls := c\<rparr>) = uniform_display p"
  by (rule ext) (simp add: uniform_display_def jq_calls)

lemma visible_to_user_restores_uniform:
  assumes "list_all (uniform_display p) ignorable"
  shows "display (snd (visible_to_user el ignorable p)) = display p"
proof (cases "is_displayed p el \<and>
    \<not> outside_viewport (fst (element_screen_position el p)) (element_size p el) (inner_size p)")
  case True
  let ?p4 = "p\<lparr>calls := calls p @
      [IsDisplayed el, ScreenPositionScript el, ElementSize el, WindowInnerSizeScript,
       VisibilityScript el ignorable]\<rparr>"
  have u: "list_all (uniform_display ?p4) ignorable"
    using assms by (simp add: uniform_display_calls)
  from True have "visible_to_user el ignorable p = visibility_script el ignorable ?p4"
    by (simp add: visible_to_user_def record_command_def element_screen_position_def
        get_window_inner_size_def Let_def)
  then show ?thesis
    using visibility_script_display [OF u, of el] by simp
next
  case False
  then show ?thesis
    by (auto simp: visible_to_user_def record_command_def element_screen_position_def
        get_window_inner_size_def Let_def)
qed

text \<open>
  Claim C7. The claim is that every call of \<^verbatim>\<open>visible_to_user\<close> with ignorable
  selectors leaves each ignorable element's \<^verbatim>\<open>display\<close> at its value before the call.
  The script saves one value per selector, the display of the first element the
  selector matches, and writes it back to every element the selector matches. On the
  page where \<^verbatim>\<open>.overlay\<close> matches the block element 3 and the inline element 4, the
  inline element is a block element after the call, both where the probe throws and
  where it returns.
\<close>

theorem visible_to_user_overwrites_display:
  "map (display (covered_page True)) (matches (covered_page True) ''.overlay'') =
     [''block'', ''inline'']
   \<and> fst (visible_to_user 1 [Selector ''.overlay''] (covered_page True)) = Inl JavascriptException
   \<and> map (display (snd (visible_to_user 1 [Selector ''.overlay''] (covered_page True))))
         (matches (covered_page True) ''.overlay'') = [''block'', ''block'']
   \<and> fst (visible_to_user 1 [Selector ''.overlay''] (covered_page False)) = Inr False
   \<and> map (display (snd (visible_to_user 1 [Selector ''.overlay''] (covered_page False))))
         (matches (covered_page False) ''.overlay'') = [''block'', ''block'']"
  by (simp add: covered_page_def visible_to_user_def visibility_script_def
      record_command_def element_screen_position_def get_window_inner_size_def outside_viewport_def
      corners_def el_contains_def css_set_def css_get_def jq_def jq_array_def Let_def)

text \<open>
  Claim C8. When the element reports itself as not displayed, \<^verbatim>\<open>visible_to_user\<close>
  returns \<^verbatim>\<open>False\<close> and the one command it has sent is the \<^verbatim>\<open>is_displayed\<close> query. When
  the element is displayed and its box (screen position plus size) lies outside the
  window's inner width and height, it returns \<^verbatim>\<open>False\<close> after the position, size and
  window-size queries: the hit-testing script is not sent, and the page is unchanged.
\<close>

theorem visible_to_user_cheap_rejects:
  "(\<not> is_displayed p el \<longrightarrow>
      visible_to_user el ignorable p = (Inr False, p\<lparr>calls := calls p @ [IsDisplayed el]\<rparr>))
   \<and> (is_displayed p el \<and>
        outside_viewport (fst (element_screen_position el p)) (element_size p el) (inner_size p) \<longrightarrow>
      visible_to_user el ignorable p =
        (Inr False,
         p\<lparr>calls := calls p @
              [IsDisplayed el, ScreenPositionScript el, ElementSize el, WindowInnerSizeScript]\<rparr>))"
  by (simp add: visible_to_user_def record_command_def element_screen_position_def
      get_window_inner_size_def Let_def)

theorem visible_to_user_cheap_rejects_witness:
  "\<not> is_displayed (covered_page True\<lparr>is_displayed := (\<lambda>n. False)\<rparr>) 1
   \<and> visible_to_user 1 [Selector ''.overlay''] (covered_page True\<lparr>is_displayed := (\<lambda>n. False)\<rparr>) =
       (Inr False, covered_page True\<lparr>is_displayed := (\<lambda>n. False), calls := [IsDisplayed 1]\<rparr>)
   \<and> is_displayed (covered_page True\<lparr>scroll_top := 5000\<rparr>) 1
   \<and> outside_viewport (fst (element_screen_position 1 (covered_page True\<lparr>scroll_top := 5000\<rparr>)))
         (element_size (covered_page True\<lparr>scroll_top := 5000\<rparr>) 1)
         (inner_size (covered_page True\<lparr>scroll_top := 5000\<rparr>))
   \<and> visible_to_user 1 [Selector ''.overlay''] (covered_page True\<lparr>scroll_top := 5000\<rparr>) =
       (Inr False,
        covered_page True\<lparr>scroll_top := 5000,
          calls := [IsDisplayed 1, ScreenPositionScript 1, ElementSize 1, WindowInnerSizeScript]\<rparr>)"
  using visible_to_user_cheap_rejects
          [of "covered_page True\<lparr>is_displayed := (\<lambda>n. False)\<rparr>" 1 "[Selector ''.overlay'']"]
        visible_to_user_cheap_rejects
          [of "covered_page True\<lparr>scroll_top := 5000\<rparr>" 1 "[Selector ''.overlay'']"]
  by (simp add: covered_page_def outside_viewport_def element_screen_position_def)

end
